theory Spec2Isabelle
  imports Complex_Main "HOL-Library.Multiset"
begin

section \<open>Data model of the GitTide commit graph\<close>

text \<open>
  The commit objects the \<^verbatim>\<open>GitTide\<close> component receives from \<^verbatim>\<open>get_git_history\<close>.
  The fields are the ones the component reads: \<^verbatim>\<open>id\<close>, \<^verbatim>\<open>message\<close>, \<^verbatim>\<open>author\<close>,
  \<^verbatim>\<open>timestamp\<close>, \<^verbatim>\<open>parents\<close>, \<^verbatim>\<open>branch\<close>, \<^verbatim>\<open>position\<close> (the lane), \<^verbatim>\<open>color\<close> and
  \<^verbatim>\<open>type\<close>. JavaScript numbers are modelled as exact rationals: the coordinates the
  renderer computes are small integers and their halves, on which the two agree.
\<close>

record commit =
  commit_id :: string
  message :: string
  author :: string
  timestamp :: string
  parents :: "string list"
  branch :: "string option"
  position :: rat
  color :: string
  commit_type :: string

record branch_info =
  name :: string
  is_head :: bool

text \<open>The \<^verbatim>\<open>useState\<close> cells of the component, in the order they are declared.\<close>

record state =
  currentRepo :: "string option"
  branches :: "branch_info list"
  gitHistory :: "commit list"
  error :: "string option"
  loading :: bool
  selectedCommit :: "commit option"
  autoRefresh :: bool

definition initial_state :: state where
  "initial_state = \<lparr> currentRepo = None, branches = [], gitHistory = [], error = None,
     loading = False, selectedCommit = None, autoRefresh = True \<rparr>"

section \<open>Path router: \<^verbatim>\<open>calculatePath\<close>\<close>

text \<open>
  The source builds the \<^verbatim>\<open>d\<close> attribute of an SVG path as a string of commands; the
  model keeps the commands and their arguments, in the order of the template.
\<close>

datatype path_cmd = M rat rat | L rat rat | Q rat rat rat rat

definition radius :: rat where
  "radius = 10"

definition minVerticalDist :: rat where
  "minVerticalDist = radius * 2"

definition calculatePath :: "rat \<Rightarrow> rat \<Rightarrow> rat \<Rightarrow> rat \<Rightarrow> path_cmd list" where
  "calculatePath startX startY endX endY =
     (let verticalDist = \<bar>endY - startY\<bar> in
      if startX = endX then [M startX startY, L endX endY]
      else if verticalDist < minVerticalDist then
        (let midY = (startY + endY) / 2 in
         [M startX startY,
          Q startX midY ((startX + endX) / 2) midY,
          Q endX midY endX endY])
      else
        (let directionY = (if endY > startY then 1 else - 1 :: int);
             cornerY = (if directionY = 1 then endY - radius else endY + radius) in
         [M startX startY,
          L startX cornerY,
          Q startX endY (startX + (if endX > startX then radius else - radius)) endY,
          L endX endY]))"

section \<open>Selection and refresh\<close>

text \<open>\<^verbatim>\<open>selectedCommit?.id === commit.id ? null : commit\<close>\<close>

definition handleCommitClick :: "commit \<Rightarrow> state \<Rightarrow> state" where
  "handleCommitClick c s =
     s\<lparr>selectedCommit :=
         (if map_option commit_id (selectedCommit s) = Some (commit_id c) then None else Some c)\<rparr>"

text \<open>
  What \<^verbatim>\<open>await Promise.all([...])\<close> yields in \<^verbatim>\<open>refreshData\<close>: a rejection, whose
  reason may lack a \<^verbatim>\<open>toString\<close> (\<open>None\<close>: the \<^verbatim>\<open>catch\<close> block itself throws before
  \<^verbatim>\<open>setError\<close>), or the two results, each of them possibly \<^verbatim>\<open>null\<close> or
  \<^verbatim>\<open>undefined\<close> (\<open>None\<close>).
\<close>

datatype outcome =
  Rejected "string option"
| Resolved "branch_info list option" "commit list option"

text \<open>\<^verbatim>\<open>x || []\<close> applied to an array, to \<^verbatim>\<open>null\<close> or to \<^verbatim>\<open>undefined\<close>.\<close>

definition or_empty :: "'a list option \<Rightarrow> 'a list" where
  "or_empty x = (case x of None \<Rightarrow> [] | Some xs \<Rightarrow> xs)"

text \<open>
  The state setters \<^verbatim>\<open>refreshData\<close> calls, in order: \<^verbatim>\<open>setLoading(true)\<close>, then
  after the \<^verbatim>\<open>await\<close> either the three setters of the \<^verbatim>\<open>try\<close> block or the one of
  the \<^verbatim>\<open>catch\<close> block, then \<^verbatim>\<open>setLoading(false)\<close> of the \<^verbatim>\<open>finally\<close> block.
\<close>

definition refreshData_steps :: "outcome \<Rightarrow> (state \<Rightarrow> state) list" where
  "refreshData_steps r =
     [\<lambda>s. s\<lparr>loading := True\<rparr>] @
     (case r of
        Resolved branchesData historyData \<Rightarrow>
          [\<lambda>s. s\<lparr>branches := or_empty branchesData\<rparr>,
           \<lambda>s. s\<lparr>gitHistory := or_empty historyData\<rparr>,
           \<lambda>s. s\<lparr>error := None\<rparr>]
      | Rejected (Some err) \<Rightarrow> [\<lambda>s. s\<lparr>error := Some err\<rparr>]
      | Rejected None \<Rightarrow> []) @
     [\<lambda>s. s\<lparr>loading := False\<rparr>]"

definition refreshData :: "outcome \<Rightarrow> state \<Rightarrow> state" where
  "refreshData r s = fold (\<lambda>f. f) (refreshData_steps r) s"

definition handleCloseRepository :: "state \<Rightarrow> state" where
  "handleCloseRepository s =
     s\<lparr>currentRepo := None, branches := [], gitHistory := [], selectedCommit := None,
       error := None\<rparr>"

text \<open>
  The events the selection claims range over: a click on a commit node and the completion
  of a refresh. \<^verbatim>\<open>run\<close> applies a finite sequence of them, oldest first.
\<close>

datatype event = Click commit | Refresh outcome

fun step :: "state \<Rightarrow> event \<Rightarrow> state" where
  "step s (Click c) = handleCommitClick c s"
| "step s (Refresh r) = refreshData r s"

definition run :: "state \<Rightarrow> event list \<Rightarrow> state" where
  "run s es = foldl step s es"

text \<open>\<^verbatim>\<open>const isSelected = selectedCommit?.id === commit.id\<close>, computed for every node.\<close>

definition isSelected :: "state \<Rightarrow> commit \<Rightarrow> bool" where
  "isSelected s c \<longleftrightarrow> map_option commit_id (selectedCommit s) = Some (commit_id c)"

text \<open>The selected commit, if any, has the id of a commit of the store.\<close>

definition selection_in_store :: "state \<Rightarrow> bool" where
  "selection_in_store s \<longleftrightarrow>
     (case selectedCommit s of None \<Rightarrow> True
      | Some c \<Rightarrow> commit_id c \<in> commit_id ` set (gitHistory s))"

text \<open>
  An event that keeps the selection inside the store: a click on a commit that is
  displayed, a rejected refresh, or a refresh whose batch still holds the id of the
  selected commit.
\<close>

fun keeps_selection :: "state \<Rightarrow> event \<Rightarrow> bool" where
  "keeps_selection s (Click c) \<longleftrightarrow> c \<in> set (gitHistory s)"
| "keeps_selection s (Refresh (Rejected e)) \<longleftrightarrow> True"
| "keeps_selection s (Refresh (Resolved b h)) \<longleftrightarrow>
     (case selectedCommit s of None \<Rightarrow> True
      | Some c \<Rightarrow> commit_id c \<in> commit_id ` set (or_empty h))"

fun keeps_selection_all :: "state \<Rightarrow> event list \<Rightarrow> bool" where
  "keeps_selection_all s [] \<longleftrightarrow> True"
| "keeps_selection_all s (e # es) \<longleftrightarrow> keeps_selection s e \<and> keeps_selection_all (step s e) es"

section \<open>Renderer of \<^verbatim>\<open>GitTide\<close>: the graph's lines and paths\<close>

text \<open>
  The two \<^verbatim>\<open>gitHistory.map\<close> passes that draw connectors. An element is kept with
  its \<^verbatim>\<open>key\<close>, its geometry and its \<^verbatim>\<open>stroke\<close>; a callback that returns \<^verbatim>\<open>null\<close>
  yields \<open>None\<close>.
\<close>

datatype element =
  Line string rat rat rat rat string
| Path string "path_cmd list" string

definition nodeX :: "commit \<Rightarrow> rat" where
  "nodeX c = 40 + position c * 20"

definition nodeY :: "nat \<Rightarrow> rat" where
  "nodeY index = of_nat index * 80 + 40"

text \<open>\<^verbatim>\<open>Array.prototype.findIndex\<close>: the first index that satisfies the test, or -1.\<close>

fun findIndex :: "('a \<Rightarrow> bool) \<Rightarrow> 'a list \<Rightarrow> int" where
  "findIndex P [] = - 1"
| "findIndex P (x # xs) =
     (if P x then 0 else (let r = findIndex P xs in if r < 0 then - 1 else r + 1))"

text \<open>
  First pass, "Draw continuous branch lines first": \<^verbatim>\<open>gitHistory[index + 1]\<close> is
  \<^verbatim>\<open>undefined\<close> past the end, which the test \<^verbatim>\<open>nextCommit && ...\<close> rejects.
\<close>

definition branchLine :: "commit list \<Rightarrow> commit \<Rightarrow> nat \<Rightarrow> element option" where
  "branchLine history c index =
     (let x = nodeX c; y = nodeY index in
      if index + 1 < length history \<and> position (history ! (index + 1)) = position c
      then Some (Line (''branch-'' @ commit_id c) x y x (y + 80) (color c))
      else None)"

definition branchLines :: "commit list \<Rightarrow> element option list" where
  "branchLines history = map (\<lambda>(index, c). branchLine history c index) (enumerate 0 history)"

text \<open>Second pass, "Draw branch connections": only \<^verbatim>\<open>commit.parents[0]\<close> is looked up.\<close>

definition branchConnection :: "commit list \<Rightarrow> commit \<Rightarrow> nat \<Rightarrow> element option" where
  "branchConnection history c index =
     (if length (parents c) > 0 then
        (let startX = nodeX c; startY = nodeY index in
         case find (\<lambda>c'. commit_id c' = parents c ! 0) history of
           None \<Rightarrow> None
         | Some parentCommit \<Rightarrow>
             (let parentIndex = findIndex (\<lambda>c'. commit_id c' = commit_id parentCommit) history;
                  endX = nodeX parentCommit;
                  endY = of_int parentIndex * 80 + 40 in
              if startX \<noteq> endX \<or> \<bar>parentIndex - int index\<bar> > 1
              then Some (Path (commit_id c @ ''-'' @ commit_id parentCommit)
                           (calculatePath startX startY endX endY) (color c))
              else None))
      else None)"

definition branchConnections :: "commit list \<Rightarrow> element option list" where
  "branchConnections history =
     map (\<lambda>(index, c). branchConnection history c index) (enumerate 0 history)"

text \<open>The connectors of the rendered SVG, in document order (\<^verbatim>\<open>null\<close> renders nothing).\<close>

definition connectors :: "commit list \<Rightarrow> element list" where
  "connectors history = List.map_filter (\<lambda>e. e) (branchLines history @ branchConnections history)"

section \<open>The commit list of \<^verbatim>\<open>src/pages/index.tsx\<close>\<close>

text \<open>
  The second page of the repository, \<^verbatim>\<open>App\<close>, draws its own connectors in
  \<^verbatim>\<open>renderBranchLines\<close>: one cubic curve for every entry of \<^verbatim>\<open>commit.parents\<close> that
  \<^verbatim>\<open>commits.find\<close> locates. Its \<^verbatim>\<open>Commit\<close> interface names the id \<^verbatim>\<open>hash\<close> and the
  lane \<^verbatim>\<open>column\<close>.
\<close>

record app_commit =
  hash :: string
  app_parents :: "string list"
  app_branch :: string
  column :: rat

record app_branch_info =
  branch_name :: string
  branch_color :: string

datatype app_path = CubicPath string rat rat rat rat rat rat rat rat string

definition app_stroke :: "app_branch_info list \<Rightarrow> app_commit \<Rightarrow> string" where
  "app_stroke bs c =
     (case find (\<lambda>b. branch_name b = app_branch c) bs of
        None \<Rightarrow> ''#666''
      | Some b \<Rightarrow> if branch_color b = [] then ''#666'' else branch_color b)"

definition renderBranchLines :: "app_branch_info list \<Rightarrow> app_commit list \<Rightarrow> app_commit \<Rightarrow> app_path option list" where
  "renderBranchLines bs commits c =
     map (\<lambda>parentHash.
            case find (\<lambda>c'. hash c' = parentHash) commits of
              None \<Rightarrow> None
            | Some parentCommit \<Rightarrow>
                (let startX = 24 + column c * 16; endX = 24 + column parentCommit * 16 in
                 Some (CubicPath (hash c @ ''-'' @ parentHash)
                         startX 12 startX 24 endX 0 endX 12 (app_stroke bs c))))
         (app_parents c)"

section \<open>Lane assignment\<close>

text \<open>
  The sources hold no lane assignment: \<^verbatim>\<open>GitTide\<close> reads the lane of a commit from
  \<^verbatim>\<open>commit.position\<close> and \<^verbatim>\<open>App\<close> from \<^verbatim>\<open>commit.column\<close>, both delivered with the
  history. The definitions of this section follow section 4.1 of the specification,
  for a call without \<^verbatim>\<open>previousAssignment\<close>. The active lanes are a list of slots:
  slot \<open>i\<close> holds the id expected next on lane \<open>i\<close>, or \<open>None\<close> when the lane is unused.
\<close>

type_synonym lanes = "string option list"

text \<open>
  Modelled from the spec: the missing \<^verbatim>\<open>assignLanes\<close>, "the lowest-numbered unused
  lane (reuse freed lane numbers before allocating a new one)": the first free slot, or
  the number of slots when none is free.
\<close>

fun lowest_unused :: "lanes \<Rightarrow> nat" where
  "lowest_unused [] = 0"
| "lowest_unused (x # xs) = (case x of None \<Rightarrow> 0 | Some _ \<Rightarrow> Suc (lowest_unused xs))"

text \<open>
  Modelled from the spec: the missing \<^verbatim>\<open>assignLanes\<close>, "some active lane's
  expected-next-id equals \<^verbatim>\<open>c.id\<close>": the lowest such lane, if there is one.
\<close>

fun lane_expecting :: "string \<Rightarrow> lanes \<Rightarrow> nat option" where
  "lane_expecting i [] = None"
| "lane_expecting i (x # xs) =
     (if x = Some i then Some 0 else map_option Suc (lane_expecting i xs))"

text \<open>
  Modelled from the spec: the missing \<^verbatim>\<open>assignLanes\<close>, writing a slot: an existing
  lane is overwritten, the lane behind the last one is allocated.
\<close>

definition put_lane :: "nat \<Rightarrow> string option \<Rightarrow> lanes \<Rightarrow> lanes" where
  "put_lane i v ls = (if i < length ls then ls[i := v] else ls @ [v])"

text \<open>
  Modelled from the spec: the missing \<^verbatim>\<open>assignLanes\<close>, "If some active lane's
  expected-next-id equals \<^verbatim>\<open>c.id\<close>, assign \<^verbatim>\<open>c\<close> to that lane ... Otherwise assign
  the lowest-numbered unused lane".
\<close>

definition place :: "commit \<Rightarrow> lanes \<Rightarrow> nat" where
  "place c ls =
     (case lane_expecting (commit_id c) ls of Some i \<Rightarrow> i | None \<Rightarrow> lowest_unused ls)"

text \<open>
  Modelled from the spec: the missing \<^verbatim>\<open>assignLanes\<close>, "free the lane's slot for
  re-use once all its continuations are consumed": when the commit with id \<open>k\<close> is
  placed, every lane that expected \<open>k\<close> has been consumed and becomes unused.
\<close>

definition free_expecting :: "string \<Rightarrow> lanes \<Rightarrow> lanes" where
  "free_expecting k ls = map (\<lambda>x. if x = Some k then None else x) ls"

text \<open>
  Modelled from the spec: the missing \<^verbatim>\<open>assignLanes\<close>, "Register
  \<^verbatim>\<open>c.parentIds[0]\<close> (primary parent) as the new expected-next-id for \<^verbatim>\<open>c\<close>'s lane"
  and "when \<^verbatim>\<open>c.parentIds\<close> is empty, the lane is retired".
\<close>

definition continue_lane :: "commit \<Rightarrow> nat \<Rightarrow> lanes \<Rightarrow> lanes" where
  "continue_lane c i ls = put_lane i (case parents c of [] \<Rightarrow> None | p # _ \<Rightarrow> Some p) ls"

text \<open>
  Modelled from the spec: the missing \<^verbatim>\<open>assignLanes\<close>, "For each additional parent,
  if that parent does not already have an expected continuation in an active lane, open
  a new lane for it; otherwise leave its existing lane as-is".
\<close>

definition open_merge_parent :: "string \<Rightarrow> lanes \<Rightarrow> lanes" where
  "open_merge_parent q ls =
     (if Some q \<in> set ls then ls else put_lane (lowest_unused ls) (Some q) ls)"

text \<open>
  Modelled from the spec: the missing \<^verbatim>\<open>assignLanes\<close>, the treatment of one commit.
  "a commit listing itself as a parent is rejected" (\<open>None\<close>, the active lanes
  untouched); any other commit gets its lane, the lanes that expected it are freed, and
  its parents are registered.
\<close>

definition assign_step :: "commit \<Rightarrow> lanes \<Rightarrow> nat option \<times> lanes" where
  "assign_step c ls =
     (if commit_id c \<in> set (parents c) then (None, ls)
      else (let i = place c ls in
            (Some i, fold open_merge_parent (tl (parents c))
                       (continue_lane c i (free_expecting (commit_id c) ls)))))"

text \<open>
  Modelled from the spec: the missing \<^verbatim>\<open>assignLanes\<close>, "Process commits in display
  order (newest first, i.e., row 0..N-1)", from given active lanes: the lane of every
  row, or \<open>None\<close> for a rejected commit.
\<close>

fun layout :: "lanes \<Rightarrow> commit list \<Rightarrow> (string \<times> nat option) list" where
  "layout ls [] = []"
| "layout ls (c # cs) =
     (case assign_step c ls of (r, ls') \<Rightarrow> (commit_id c, r) # layout ls' cs)"

text \<open>
  Modelled from the spec: the missing \<^verbatim>\<open>assignLanes\<close>, called without
  \<^verbatim>\<open>previousAssignment\<close>: the mapping from id to lane, as an association list in row
  order, starting with no active lane.
\<close>

definition assignLanes :: "commit list \<Rightarrow> (string \<times> nat) list" where
  "assignLanes cs = List.map_filter (\<lambda>(i, r). map_option (Pair i) r) (layout [] cs)"

text \<open>
  Modelled from the spec: the \<^verbatim>\<open>InvalidHistory\<close> condition the missing
  \<^verbatim>\<open>assignLanes\<close> reports, as the ids of the rejected commits.
\<close>

definition invalidHistory :: "commit list \<Rightarrow> string list" where
  "invalidHistory cs = map fst (filter (\<lambda>(i, r). r = None) (layout [] cs))"

text \<open>
  Modelled from the spec: the active lanes the missing \<^verbatim>\<open>assignLanes\<close> is left with
  after the last row.
\<close>

fun final_lanes :: "lanes \<Rightarrow> commit list \<Rightarrow> lanes" where
  "final_lanes ls [] = ls"
| "final_lanes ls (c # cs) = final_lanes (snd (assign_step c ls)) cs"

subsection \<open>The width of the commit graph\<close>

text \<open>
  The measure of "concurrent open branches" reads the commit sequence only, never the
  lanes. A parent reference of row \<open>i\<close> is answered once a row below \<open>i\<close> carries the
  referenced id; \<open>answered cs i r\<close> holds the ids of the rows \<open>i + 1, ..., r\<close>.

  Modelled from the spec: the ids that answer a parent reference of row \<open>i\<close> down to row
  \<open>r\<close>, for the property of the missing \<^verbatim>\<open>assignLanes\<close>.
\<close>

definition answered :: "commit list \<Rightarrow> nat \<Rightarrow> nat \<Rightarrow> string set" where
  "answered cs i r = set (map commit_id (take (r - i) (drop (Suc i) cs)))"

text \<open>
  Modelled from the spec: the branches that pass row \<open>r\<close>, for the property of the
  missing \<^verbatim>\<open>assignLanes\<close>: the parent references of the rows above \<open>r\<close> that no row
  down to \<open>r\<close> has answered (the edges of the graph that cross row \<open>r\<close>).
\<close>

definition open_edges :: "commit list \<Rightarrow> nat \<Rightarrow> string list" where
  "open_edges cs r =
     concat (map (\<lambda>i. filter (\<lambda>p. p \<notin> answered cs i r) (parents (cs ! i))) [0..<r])"

text \<open>
  Modelled from the spec: "concurrent open branches" at row \<open>r\<close>, for the property of
  the missing \<^verbatim>\<open>assignLanes\<close>: the edges that cross the row, and the commit of the row
  itself or, when there are more of them, the edges that leave it.
\<close>

definition open_branches :: "commit list \<Rightarrow> nat \<Rightarrow> nat" where
  "open_branches cs r = length (open_edges cs r) + max 1 (length (parents (cs ! r)))"

text \<open>
  Modelled from the spec: "maximum concurrent open branches at any row", for the missing
  \<^verbatim>\<open>assignLanes\<close>; 0 for the empty history.
\<close>

definition max_open_branches :: "commit list \<Rightarrow> nat" where
  "max_open_branches cs = foldr max (map (open_branches cs) [0..<length cs]) 0"

text \<open>
  Modelled from the spec: the "parent references" of a commit sequence, the edges from
  every commit's id to each of its \<^verbatim>\<open>parentIds\<close>, whose acyclicity the property of the
  missing \<^verbatim>\<open>assignLanes\<close> assumes.
\<close>

definition parent_edges :: "commit list \<Rightarrow> (string \<times> string) set" where
  "parent_edges cs = set (concat (map (\<lambda>c. map (\<lambda>p. (commit_id c, p)) (parents c)) cs))"

text \<open>
  Two notions for the proofs about the missing \<^verbatim>\<open>assignLanes\<close>: the expected ids the
  lanes hold, with their multiplicity, and the widths of the rows computed along the
  sequence from the parent references \<open>pend\<close> that are open above it.
\<close>

definition busy :: "lanes \<Rightarrow> string option multiset" where
  "busy ls = filter_mset (\<lambda>x. x \<noteq> None) (mset ls)"

fun widths_from :: "string list \<Rightarrow> commit list \<Rightarrow> nat list" where
  "widths_from pend [] = []"
| "widths_from pend (c # cs) =
     (let pass = filter (\<lambda>p. p \<noteq> commit_id c) pend in
      (length pass + max 1 (length (parents c))) # widths_from (pass @ parents c) cs)"

section \<open>Sample histories\<close>

text \<open>
  The five commits that \<^verbatim>\<open>src/pages/index.tsx\<close> keeps as its initial history, given
  the shape \<^verbatim>\<open>GitTide\<close> reads (\<^verbatim>\<open>hash\<close> as \<^verbatim>\<open>id\<close>, \<^verbatim>\<open>column\<close> as
  \<^verbatim>\<open>position\<close>): a merge commit on lane 0 whose second parent is on lane 1.
\<close>

definition mk_commit :: "string \<Rightarrow> string list \<Rightarrow> rat \<Rightarrow> commit" where
  "mk_commit i ps lane = \<lparr> commit_id = i, message = [], author = [], timestamp = [],
     parents = ps, branch = None, position = lane, color = ''#4A9EFF'',
     commit_type = (if 1 < length ps then ''merge'' else ''commit'') \<rparr>"

definition c_abc :: commit where "c_abc = mk_commit ''abc123'' [''def456'', ''ghi789''] 0"
definition c_def :: commit where "c_def = mk_commit ''def456'' [''jkl012''] 0"
definition c_ghi :: commit where "c_ghi = mk_commit ''ghi789'' [''mno345''] 1"
definition c_jkl :: commit where "c_jkl = mk_commit ''jkl012'' [''mno345''] 0"
definition c_mno :: commit where "c_mno = mk_commit ''mno345'' [] 0"

definition sample_history :: "commit list" where
  "sample_history = [c_abc, c_def, c_ghi, c_jkl, c_mno]"

text \<open>Two root commits that follow each other on lane 0; neither is a parent of the other.\<close>

definition two_roots :: "commit list" where
  "two_roots = [mk_commit ''r1'' [] 0, mk_commit ''r2'' [] 0]"

text \<open>
  Three forks in a row: two children per parent, each pair followed by the parent. At
  most two edges of the graph cross any row.
\<close>

definition fork_chain :: "commit list" where
  "fork_chain = [mk_commit ''a'' [''p''] 0, mk_commit ''b'' [''p''] 1, mk_commit ''p'' [''q''] 0,
     mk_commit ''c'' [''q''] 1, mk_commit ''q'' [''r''] 0, mk_commit ''d'' [''r''] 1,
     mk_commit ''r'' [] 0]"

section \<open>Properties of the path router\<close>

lemma calculatePath_same_lane:
  "calculatePath sx sy sx ey = [M sx sy, L sx ey]"
  by (simp add: calculatePath_def)

text \<open>
  C1. \<^verbatim>\<open>calculatePath\<close> returns, for a child at \<open>(sx, sy)\<close> and a parent at
  \<open>(ex, ey)\<close>: a straight vertical segment when the lanes (the x coordinates) are equal;
  when they differ and the vertical distance is strictly below two radii, two quadratic
  arcs that meet at the midpoint of child and parent and are mirror images of each other
  through it; otherwise a vertical run to a corner one radius before the parent's row,
  an arc that bends one radius towards the parent's lane, and a horizontal run into the
  parent. The renderer passes \<open>nodeX\<close> of the two commits as \<open>sx\<close> and \<open>ex\<close>, which are
  equal exactly when the lanes are.
\<close>

theorem calculatePath_shapes:
  "(sx = ex \<longrightarrow> calculatePath sx sy ex ey = [M sx sy, L sx ey]) \<and>
   (sx \<noteq> ex \<and> \<bar>ey - sy\<bar> < 2 * radius \<longrightarrow>
      (\<exists>mx my. calculatePath sx sy ex ey = [M sx sy, Q sx my mx my, Q ex my ex ey] \<and>
         mx = (sx + ex) / 2 \<and> my = (sy + ey) / 2 \<and>
         2 * mx - sx = ex \<and> 2 * my - sy = ey)) \<and>
   (sx \<noteq> ex \<and> \<not> \<bar>ey - sy\<bar> < 2 * radius \<longrightarrow>
      (\<exists>cy bx. calculatePath sx sy ex ey = [M sx sy, L sx cy, Q sx ey bx ey, L ex ey] \<and>
         \<bar>ey - cy\<bar> = radius \<and> min sy ey < cy \<and> cy < max sy ey \<and>
         \<bar>bx - sx\<bar> = radius \<and> (sx < bx \<longleftrightarrow> sx < ex))) \<and>
   (nodeX a = nodeX b \<longleftrightarrow> position a = position b)"
proof (intro conjI impI)
  show "nodeX a = nodeX b \<longleftrightarrow> position a = position b"
    by (simp add: nodeX_def)
next
  assume "sx = ex"
  then show "calculatePath sx sy ex ey = [M sx sy, L sx ey]"
    by (simp add: calculatePath_def)
next
  assume h: "sx \<noteq> ex \<and> \<bar>ey - sy\<bar> < 2 * radius"
  define mx where "mx = (sx + ex) / 2"
  define my where "my = (sy + ey) / 2"
  from h have p: "calculatePath sx sy ex ey = [M sx sy, Q sx my mx my, Q ex my ex ey]"
    by (simp add: calculatePath_def minVerticalDist_def mult.commute Let_def mx_def my_def)
  have m1: "2 * mx - sx = ex" and m2: "2 * my - sy = ey"
    by (simp_all add: mx_def my_def field_simps)
  from p m1 m2 mx_def my_def
  show "\<exists>mx my. calculatePath sx sy ex ey = [M sx sy, Q sx my mx my, Q ex my ex ey] \<and>
         mx = (sx + ex) / 2 \<and> my = (sy + ey) / 2 \<and> 2 * mx - sx = ex \<and> 2 * my - sy = ey"
    by blast
next
  assume h: "sx \<noteq> ex \<and> \<not> \<bar>ey - sy\<bar> < 2 * radius"
  define cy where "cy = (if ey > sy then ey - radius else ey + radius)"
  define bx where "bx = sx + (if ex > sx then radius else - radius)"
  from h have p: "calculatePath sx sy ex ey = [M sx sy, L sx cy, Q sx ey bx ey, L ex ey]"
    by (simp add: calculatePath_def minVerticalDist_def mult.commute cy_def bx_def Let_def)
  from h have far: "20 \<le> \<bar>ey - sy\<bar>"
    by (simp add: radius_def)
  have c1: "\<bar>ey - cy\<bar> = radius"
    by (simp add: cy_def radius_def)
  have c2: "min sy ey < cy" and c3: "cy < max sy ey"
    using far by (auto simp: cy_def radius_def)
  have b1: "\<bar>bx - sx\<bar> = radius"
    by (simp add: bx_def radius_def)
  have b2: "sx < bx \<longleftrightarrow> sx < ex"
    by (simp add: bx_def radius_def)
  from p c1 c2 c3 b1 b2
  show "\<exists>cy bx. calculatePath sx sy ex ey = [M sx sy, L sx cy, Q sx ey bx ey, L ex ey] \<and>
         \<bar>ey - cy\<bar> = radius \<and> min sy ey < cy \<and> cy < max sy ey \<and>
         \<bar>bx - sx\<bar> = radius \<and> (sx < bx \<longleftrightarrow> sx < ex)"
    by blast
qed

theorem calculatePath_shapes_witness:
  "calculatePath 40 40 40 280 = [M 40 40, L 40 280] \<and>
   calculatePath 40 40 60 40 = [M 40 40, Q 40 40 50 40, Q 60 40 60 40] \<and>
   calculatePath 60 200 40 360 = [M 60 200, L 60 350, Q 60 360 50 360, L 40 360]"
  using calculatePath_shapes [of 40 40 40 280] calculatePath_shapes [of 40 60 40 40]
    calculatePath_shapes [of 60 40 200 360]
  by (simp add: radius_def calculatePath_def minVerticalDist_def)

section \<open>Properties of selection, refresh and close\<close>

text \<open>
  C4. Clicking a commit while none is selected selects it; clicking the commit whose id
  is the selected one clears the selection; clicking a commit with another id selects
  the clicked commit.
\<close>

theorem handleCommitClick_toggle:
  "(selectedCommit s = None \<longrightarrow> selectedCommit (handleCommitClick c s) = Some c) \<and>
   (\<forall>a. selectedCommit s = Some a \<and> commit_id a = commit_id c \<longrightarrow>
      selectedCommit (handleCommitClick c s) = None) \<and>
   (\<forall>a. selectedCommit s = Some a \<and> commit_id a \<noteq> commit_id c \<longrightarrow>
      selectedCommit (handleCommitClick c s) = Some c)"
  by (simp add: handleCommitClick_def)

theorem handleCommitClick_toggle_witness:
  "selectedCommit (handleCommitClick c_abc initial_state) = Some c_abc \<and>
   selectedCommit (handleCommitClick c_abc (initial_state\<lparr>selectedCommit := Some c_abc\<rparr>)) = None \<and>
   selectedCommit (handleCommitClick c_def (initial_state\<lparr>selectedCommit := Some c_abc\<rparr>)) = Some c_def"
  using handleCommitClick_toggle [of initial_state c_abc]
    handleCommitClick_toggle [of "initial_state\<lparr>selectedCommit := Some c_abc\<rparr>" c_abc]
    handleCommitClick_toggle [of "initial_state\<lparr>selectedCommit := Some c_abc\<rparr>" c_def]
  by (simp add: initial_state_def c_abc_def c_def_def mk_commit_def)

lemma refreshData_Resolved:
  "refreshData (Resolved b h) s =
     s\<lparr>branches := or_empty b, gitHistory := or_empty h, error := None, loading := False\<rparr>"
  by (simp add: refreshData_def refreshData_steps_def)

lemma refreshData_Rejected_Some:
  "refreshData (Rejected (Some e)) s = s\<lparr>error := Some e, loading := False\<rparr>"
  by (simp add: refreshData_def refreshData_steps_def)

lemma refreshData_Rejected_None:
  "refreshData (Rejected None) s = s\<lparr>loading := False\<rparr>"
  by (simp add: refreshData_def refreshData_steps_def)

text \<open>
  C5. Reconciliation is idempotent: applying the same refresh outcome a second time
  gives the state that applying it once gives, in every field.
\<close>

theorem refreshData_idempotent:
  "refreshData r (refreshData r s) = refreshData r s"
proof (cases r)
  case (Rejected e)
  then show ?thesis
    by (cases e) (simp_all add: refreshData_Rejected_Some refreshData_Rejected_None)
next
  case (Resolved b h)
  then show ?thesis by (simp add: refreshData_Resolved)
qed

text \<open>
  C6. When the transport call of a refresh fails, the commit store, the branch list,
  the lanes (the \<^verbatim>\<open>position\<close> of the stored commits) and the selection are what they
  were before the call, in the final state and after every prefix of the setter calls.
\<close>

theorem refreshData_rejected_atomic:
  "gitHistory (refreshData (Rejected e) s) = gitHistory s \<and>
   branches (refreshData (Rejected e) s) = branches s \<and>
   map position (gitHistory (refreshData (Rejected e) s)) = map position (gitHistory s) \<and>
   selectedCommit (refreshData (Rejected e) s) = selectedCommit s \<and>
   (\<forall>k. gitHistory (fold (\<lambda>f. f) (take k (refreshData_steps (Rejected e))) s) = gitHistory s \<and>
        branches (fold (\<lambda>f. f) (take k (refreshData_steps (Rejected e))) s) = branches s \<and>
        selectedCommit (fold (\<lambda>f. f) (take k (refreshData_steps (Rejected e))) s) =
          selectedCommit s)"
  by (cases e) (simp_all add: refreshData_def refreshData_steps_def take_Cons')

text \<open>
  C8. Closing the repository gives, from every state, the initial state up to the two
  interface toggles \<^verbatim>\<open>loading\<close> and \<^verbatim>\<open>autoRefresh\<close>, which it does not write: the
  commit store and the branch list are empty and nothing is selected.
\<close>

theorem handleCloseRepository_resets:
  "handleCloseRepository s = initial_state\<lparr>loading := loading s, autoRefresh := autoRefresh s\<rparr> \<and>
   gitHistory (handleCloseRepository s) = gitHistory initial_state \<and>
   branches (handleCloseRepository s) = branches initial_state \<and>
   selectedCommit (handleCloseRepository s) = selectedCommit initial_state \<and>
   gitHistory (handleCloseRepository s) = [] \<and>
   branches (handleCloseRepository s) = [] \<and>
   selectedCommit (handleCloseRepository s) = None"
  by (simp add: handleCloseRepository_def initial_state_def)

text \<open>
  C10. A refresh that resolves with a \<^verbatim>\<open>null\<close> or \<^verbatim>\<open>undefined\<close> history empties the
  commit store, one that resolves with such a branch list empties the branch list, and
  in no case does a resolved refresh change the selection.
\<close>

theorem refreshData_null_result_wipes:
  "gitHistory (refreshData (Resolved b None) s) = [] \<and>
   branches (refreshData (Resolved None h) s) = [] \<and>
   refreshData (Resolved None None) s =
     s\<lparr>branches := [], gitHistory := [], error := None, loading := False\<rparr> \<and>
   selectedCommit (refreshData (Resolved b h) s) = selectedCommit s"
  by (simp add: refreshData_Resolved or_empty_def)


section \<open>Properties of the renderer\<close>

lemmas sample_defs =
  sample_history_def c_abc_def c_def_def c_ghi_def c_jkl_def c_mno_def mk_commit_def

lemma nodeY_Suc: "nodeY (Suc i) = nodeY i + 80"
  by (simp add: nodeY_def algebra_simps)

lemma length_branchLines [simp]: "length (branchLines h) = length h"
  by (simp add: branchLines_def)

lemma branchLines_nth:
  "i < length h \<Longrightarrow> branchLines h ! i = branchLine h (h ! i) i"
  by (simp add: branchLines_def nth_enumerate_eq)

lemma set_connectors:
  "set (connectors h) = {e. Some e \<in> set (branchLines h) \<or> Some e \<in> set (branchConnections h)}"
  by (force simp: connectors_def List.map_filter_def image_iff)

lemma branchConnection_no_Line:
  "branchConnection h c i \<noteq> Some (Line k x1 y1 x2 y2 col)"
  by (simp add: branchConnection_def Let_def split: option.splits)

lemma branchConnections_no_Line:
  "Some (Line k x1 y1 x2 y2 col) \<notin> set (branchConnections h)"
proof
  assume "Some (Line k x1 y1 x2 y2 col) \<in> set (branchConnections h)"
  then obtain i c where "branchConnection h c i = Some (Line k x1 y1 x2 y2 col)"
    by (auto simp: branchConnections_def)
  then show False by (simp add: branchConnection_no_Line)
qed

lemma branchLines_nth_cases:
  assumes "i < length h"
  shows "branchLines h ! i =
           (if Suc i < length h \<and> position (h ! Suc i) = position (h ! i)
            then Some (Line (''branch-'' @ commit_id (h ! i))
                         (nodeX (h ! i)) (nodeY i) (nodeX (h ! Suc i)) (nodeY (Suc i))
                         (color (h ! i)))
            else None)"
  using assms
  by (auto simp: branchLines_nth branchLine_def nodeY_Suc Let_def nodeX_def)

lemma branchLines_ignore_parents:
  "branchLines (map (\<lambda>c. c\<lparr>parents := ps c\<rparr>) h) = branchLines h"
  by (rule nth_equalityI) (auto simp: branchLines_nth branchLine_def nodeX_def Let_def)

text \<open>
  C9. The first pass draws a vertical line below row \<open>i\<close> exactly when row \<open>i + 1\<close>
  exists and has the same \<^verbatim>\<open>position\<close>; the line then runs from the node of the
  upper commit to the node of the lower one. Every line of the scene is such a line,
  and replacing the parent lists of the commits changes none of them: adjacency in the
  same lane decides, not the parent relation.
\<close>

theorem branchLines_adjacent_same_lane:
  assumes "i < length h"
  shows "branchLines h ! i =
           (if Suc i < length h \<and> position (h ! Suc i) = position (h ! i)
            then Some (Line (''branch-'' @ commit_id (h ! i))
                         (nodeX (h ! i)) (nodeY i) (nodeX (h ! Suc i)) (nodeY (Suc i))
                         (color (h ! i)))
            else None) \<and>
         (Suc i < length h \<and> position (h ! Suc i) = position (h ! i) \<longrightarrow>
            Line (''branch-'' @ commit_id (h ! i))
              (nodeX (h ! i)) (nodeY i) (nodeX (h ! Suc i)) (nodeY (Suc i)) (color (h ! i))
              \<in> set (connectors h)) \<and>
         (\<forall>k x1 y1 x2 y2 col. Line k x1 y1 x2 y2 col \<in> set (connectors h) \<longrightarrow>
            (\<exists>j. Suc j < length h \<and> position (h ! Suc j) = position (h ! j) \<and>
                 k = ''branch-'' @ commit_id (h ! j) \<and> x1 = nodeX (h ! j) \<and> y1 = nodeY j \<and>
                 x2 = nodeX (h ! Suc j) \<and> y2 = nodeY (Suc j))) \<and>
         branchLines (map (\<lambda>c. c\<lparr>parents := ps c\<rparr>) h) = branchLines h"
proof (intro conjI impI allI)
  show n: "branchLines h ! i =
           (if Suc i < length h \<and> position (h ! Suc i) = position (h ! i)
            then Some (Line (''branch-'' @ commit_id (h ! i))
                         (nodeX (h ! i)) (nodeY i) (nodeX (h ! Suc i)) (nodeY (Suc i))
                         (color (h ! i)))
            else None)"
    using assms by (rule branchLines_nth_cases)
  show "branchLines (map (\<lambda>c. c\<lparr>parents := ps c\<rparr>) h) = branchLines h"
    by (rule branchLines_ignore_parents)
  {
    assume "Suc i < length h \<and> position (h ! Suc i) = position (h ! i)"
    with n have "branchLines h ! i =
           Some (Line (''branch-'' @ commit_id (h ! i))
                         (nodeX (h ! i)) (nodeY i) (nodeX (h ! Suc i)) (nodeY (Suc i))
                         (color (h ! i)))" by simp
    moreover have "branchLines h ! i \<in> set (branchLines h)"
      using assms by simp
    ultimately show "Line (''branch-'' @ commit_id (h ! i))
              (nodeX (h ! i)) (nodeY i) (nodeX (h ! Suc i)) (nodeY (Suc i)) (color (h ! i))
              \<in> set (connectors h)"
      by (simp add: set_connectors)
  }
next
  fix k x1 y1 x2 y2 col
  assume "Line k x1 y1 x2 y2 col \<in> set (connectors h)"
  then have "Some (Line k x1 y1 x2 y2 col) \<in> set (branchLines h)"
    by (simp add: set_connectors branchConnections_no_Line)
  then obtain j where j: "j < length h" and e: "branchLines h ! j = Some (Line k x1 y1 x2 y2 col)"
    by (auto simp: in_set_conv_nth)
  from e show "\<exists>j. Suc j < length h \<and> position (h ! Suc j) = position (h ! j) \<and>
                 k = ''branch-'' @ commit_id (h ! j) \<and> x1 = nodeX (h ! j) \<and> y1 = nodeY j \<and>
                 x2 = nodeX (h ! Suc j) \<and> y2 = nodeY (Suc j)"
    unfolding branchLines_nth_cases [OF j]
    by (intro exI [of _ j]) (auto split: if_splits)
qed

theorem branchLines_adjacent_same_lane_witness:
  "0 < length two_roots \<and> Suc 0 < length two_roots \<and>
   position (two_roots ! Suc 0) = position (two_roots ! 0) \<and>
   commit_id (two_roots ! Suc 0) \<notin> set (parents (two_roots ! 0)) \<and>
   branchLines two_roots ! 0 = Some (Line ''branch-r1'' 40 40 40 120 ''#4A9EFF'') \<and>
   Line ''branch-r1'' 40 40 40 120 ''#4A9EFF'' \<in> set (connectors two_roots) \<and>
   Suc 0 < length sample_history \<and>
   position (sample_history ! Suc (Suc 0)) \<noteq> position (sample_history ! Suc 0) \<and>
   branchLines sample_history ! Suc 0 = None"
  using branchLines_adjacent_same_lane [of 0 two_roots]
    branchLines_adjacent_same_lane [of "Suc 0" sample_history]
  by (simp add: two_roots_def sample_defs nodeX_def nodeY_def)


section \<open>The selection across clicks and refreshes\<close>

lemma selectedCommit_refreshData:
  "selectedCommit (refreshData r s) = selectedCommit s"
proof (cases r)
  case (Rejected e)
  then show ?thesis
    by (cases e) (simp_all add: refreshData_Rejected_Some refreshData_Rejected_None)
next
  case (Resolved b h)
  then show ?thesis by (simp add: refreshData_Resolved)
qed

lemma gitHistory_handleCommitClick:
  "gitHistory (handleCommitClick c s) = gitHistory s"
  by (simp add: handleCommitClick_def)

lemma step_keeps_selection:
  assumes "selection_in_store s" and "keeps_selection s e"
  shows "selection_in_store (step s e)"
proof (cases e)
  case (Click c)
  with assms(2) have "c \<in> set (gitHistory s)" by simp
  then show ?thesis
    using Click by (simp add: selection_in_store_def handleCommitClick_def)
next
  case (Refresh r)
  show ?thesis
  proof (cases r)
    case (Rejected x)
    with Refresh assms(1) show ?thesis
      by (cases x)
        (simp_all add: selection_in_store_def refreshData_Rejected_Some refreshData_Rejected_None
          split: option.splits)
  next
    case (Resolved b h)
    with Refresh assms(2) show ?thesis
      by (simp add: selection_in_store_def refreshData_Resolved split: option.splits)
  qed
qed

lemma run_keeps_selection:
  "selection_in_store s \<Longrightarrow> keeps_selection_all s es \<Longrightarrow> selection_in_store (run s es)"
  unfolding run_def
  by (induction es arbitrary: s) (simp_all add: step_keeps_selection)

lemma at_most_one_with_id:
  "distinct (map f xs) \<Longrightarrow> length (filter (\<lambda>x. f x = a) xs) \<le> 1"
proof (induction xs)
  case Nil
  then show ?case by simp
next
  case (Cons x xs)
  show ?case
  proof (cases "f x = a")
    case True
    with Cons.prems have "a \<notin> f ` set xs" by simp
    then have "\<forall>y\<in>set xs. f y \<noteq> a" by blast
    then have "filter (\<lambda>x. f x = a) xs = []" by (simp add: filter_empty_conv)
    with True show ?thesis by simp
  next
    case False
    with Cons show ?thesis by simp
  qed
qed

lemma at_most_one_selected:
  "distinct (map commit_id h) \<Longrightarrow> length (filter (isSelected s) h) \<le> 1"
proof (cases "selectedCommit s")
  case None
  then show ?thesis by (simp add: isSelected_def)
next
  case (Some a)
  assume "distinct (map commit_id h)"
  then have "length (filter (\<lambda>x. commit_id x = commit_id a) h) \<le> 1"
    by (rule at_most_one_with_id)
  moreover have "isSelected s = (\<lambda>x. commit_id x = commit_id a)"
    using Some by (auto simp: isSelected_def fun_eq_iff)
  ultimately show ?thesis by simp
qed

text \<open>
  C2, as amended. After every finite sequence of clicks on displayed commits and of
  refreshes, each of which either fails or delivers a batch that still holds the id of
  the commit selected at that moment, the selected commit, if any, has the id of a commit
  of the store, and at most one node of a store with distinct ids is highlighted. A
  refresh never writes the selection: a batch without the selected commit leaves it
  selected.
\<close>

theorem selection_invariant_amended:
  assumes "selection_in_store s" and "keeps_selection_all s es"
  shows "selection_in_store (run s es) \<and>
         (distinct (map commit_id (gitHistory (run s es))) \<longrightarrow>
            length (filter (isSelected (run s es)) (gitHistory (run s es))) \<le> 1) \<and>
         selectedCommit (step (run s es) (Refresh r)) = selectedCommit (run s es)"
proof (intro conjI impI)
  from assms show "selection_in_store (run s es)"
    by (rule run_keeps_selection)
next
  assume "distinct (map commit_id (gitHistory (run s es)))"
  then show "length (filter (isSelected (run s es)) (gitHistory (run s es))) \<le> 1"
    by (rule at_most_one_selected)
next
  show "selectedCommit (step (run s es) (Refresh r)) = selectedCommit (run s es)"
    by (simp add: selectedCommit_refreshData)
qed

text \<open>
  C2, as stated, fails: after loading the sample history, selecting its first commit and
  receiving a batch without it, that commit is still selected and is not in the store.
\<close>

theorem selection_invariant_counterexample:
  "\<not> selection_in_store
        (run initial_state
           [Refresh (Resolved (Some []) (Some sample_history)), Click c_abc,
            Refresh (Resolved (Some []) (Some [c_mno]))]) \<and>
   selectedCommit
        (run initial_state
           [Refresh (Resolved (Some []) (Some sample_history)), Click c_abc,
            Refresh (Resolved (Some []) (Some [c_mno]))]) = Some c_abc \<and>
   gitHistory
        (run initial_state
           [Refresh (Resolved (Some []) (Some sample_history)), Click c_abc,
            Refresh (Resolved (Some []) (Some [c_mno]))]) = [c_mno]"
  by (simp add: run_def refreshData_Resolved handleCommitClick_def initial_state_def
      selection_in_store_def or_empty_def sample_defs)

theorem selection_invariant_amended_witness:
  "selection_in_store initial_state \<and>
   keeps_selection_all initial_state
     [Refresh (Resolved (Some []) (Some sample_history)), Click c_abc,
      Refresh (Resolved (Some []) (Some [c_abc, c_mno])), Click c_mno] \<and>
   selection_in_store (run initial_state
     [Refresh (Resolved (Some []) (Some sample_history)), Click c_abc,
      Refresh (Resolved (Some []) (Some [c_abc, c_mno])), Click c_mno]) \<and>
   selectedCommit (run initial_state
     [Refresh (Resolved (Some []) (Some sample_history)), Click c_abc,
      Refresh (Resolved (Some []) (Some [c_abc, c_mno])), Click c_mno]) = Some c_mno \<and>
   length (filter (isSelected (run initial_state
     [Refresh (Resolved (Some []) (Some sample_history)), Click c_abc,
      Refresh (Resolved (Some []) (Some [c_abc, c_mno])), Click c_mno])) [c_abc, c_mno]) \<le> 1"
proof -
  let ?es = "[Refresh (Resolved (Some []) (Some sample_history)), Click c_abc,
      Refresh (Resolved (Some []) (Some [c_abc, c_mno])), Click c_mno]"
  have a: "selection_in_store initial_state"
    by (simp add: selection_in_store_def initial_state_def)
  have b: "keeps_selection_all initial_state ?es"
    by (simp add: refreshData_Resolved handleCommitClick_def initial_state_def or_empty_def sample_defs)
  have g: "gitHistory (run initial_state ?es) = [c_abc, c_mno]"
    by (simp add: run_def refreshData_Resolved handleCommitClick_def or_empty_def)
  have d: "distinct (map commit_id [c_abc, c_mno])"
    by (simp add: sample_defs)
  have e: "selectedCommit (run initial_state ?es) = Some c_mno"
    by (simp add: run_def refreshData_Resolved handleCommitClick_def initial_state_def or_empty_def sample_defs)
  from selection_invariant_amended [OF a b] a b d e g show ?thesis by simp
qed

section \<open>Connectors and parent lists\<close>

text \<open>
  C3. On the sample history \<^verbatim>\<open>GitTide\<close> draws two lines and two paths. The merge
  commit \<^verbatim>\<open>abc123\<close> lists \<^verbatim>\<open>ghi789\<close> as its second parent, that commit is in the
  store, and no connector joins the two: the second pass reads \<^verbatim>\<open>commit.parents[0]\<close>
  only.
\<close>

theorem GitTide_draws_first_parent_only:
  "connectors sample_history =
     [Line ''branch-abc123'' 40 40 40 120 ''#4A9EFF'',
      Line ''branch-jkl012'' 40 280 40 360 ''#4A9EFF'',
      Path ''def456-jkl012'' [M 40 120, L 40 280] ''#4A9EFF'',
      Path ''ghi789-mno345'' [M 60 200, L 60 350, Q 60 360 50 360, L 40 360] ''#4A9EFF''] \<and>
   parents c_abc = [''def456'', ''ghi789''] \<and>
   c_abc \<in> set sample_history \<and> c_ghi \<in> set sample_history \<and> commit_id c_ghi = ''ghi789''"
  by (simp add: connectors_def branchLines_def branchConnections_def branchLine_def
      branchConnection_def calculatePath_def minVerticalDist_def radius_def nodeX_def nodeY_def
      List.map_filter_def enumerate_eq_zip sample_defs Let_def)

text \<open>
  The other renderer of the repository, \<^verbatim>\<open>renderBranchLines\<close> of
  \<^verbatim>\<open>src/pages/index.tsx\<close>, maps over the whole parent list: every parent it finds
  among the commits gets a curve keyed by the edge.
\<close>

lemma renderBranchLines_every_parent:
  assumes "p \<in> set (app_parents c)" and "p \<in> hash ` set commits"
  shows "\<exists>x0 x1 col. Some (CubicPath (hash c @ ''-'' @ p) x0 12 x0 24 x1 0 x1 12 col)
           \<in> set (renderBranchLines bs commits c)"
proof -
  from assms(2) obtain d where d: "find (\<lambda>c'. hash c' = p) commits = Some d"
    by (cases "find (\<lambda>c'. hash c' = p) commits") (auto simp: find_None_iff)
  with assms(1) show ?thesis
    unfolding renderBranchLines_def Let_def set_map
    by (intro exI) (rule image_eqI [where x = p], simp_all)
qed


section \<open>Properties of the lane assignment\<close>

lemma lowest_unused_le: "lowest_unused ls \<le> length ls"
  by (induction ls) (auto split: option.splits)

lemma lowest_unused_full: "lowest_unused ls = length ls \<Longrightarrow> None \<notin> set ls"
  using lowest_unused_le by (induction ls) (auto split: option.splits)

lemma lowest_unused_free: "lowest_unused ls < length ls \<Longrightarrow> ls ! lowest_unused ls = None"
  by (induction ls) (auto split: option.splits)

lemma lowest_unused_lowest: "j < lowest_unused ls \<Longrightarrow> ls ! j \<noteq> None"
  by (induction ls arbitrary: j) (auto split: option.splits simp: nth_Cons')

lemma lane_expecting_Some:
  "lane_expecting k ls = Some i \<Longrightarrow> i < length ls \<and> ls ! i = Some k"
  by (induction ls arbitrary: i) (auto split: if_splits)

lemma lane_expecting_None: "lane_expecting k ls = None \<Longrightarrow> Some k \<notin> set ls"
  by (induction ls) (auto split: if_splits)

lemma place_le: "place c ls \<le> length ls"
  by (auto simp: place_def lowest_unused_le split: option.splits
      dest: lane_expecting_Some less_imp_le)

lemma place_new_full:
  assumes "place c ls = length ls"
  shows "None \<notin> set ls" and "Some (commit_id c) \<notin> set ls"
  using assms
  by (auto simp: place_def split: option.splits
      dest: lane_expecting_Some lowest_unused_full lane_expecting_None)

lemma place_slot:
  "place c ls < length ls \<Longrightarrow> ls ! place c ls = None \<or> ls ! place c ls = Some (commit_id c)"
  by (auto simp: place_def split: option.splits dest: lane_expecting_Some lowest_unused_free)

lemma length_free_expecting [simp]: "length (free_expecting k ls) = length ls"
  by (simp add: free_expecting_def)

lemma free_expecting_id: "Some k \<notin> set ls \<Longrightarrow> free_expecting k ls = ls"
  by (induction ls) (auto simp: free_expecting_def)

lemma free_expecting_slot:
  "i < length ls \<Longrightarrow> ls ! i = None \<or> ls ! i = Some k \<Longrightarrow> free_expecting k ls ! i = None"
  by (auto simp: free_expecting_def)

lemma busy_free_expecting:
  "busy (free_expecting k ls) = filter_mset (\<lambda>x. x \<noteq> Some k) (busy ls)"
  by (induction ls) (auto simp: busy_def free_expecting_def)

lemma image_Some_filter:
  "image_mset Some (mset (filter (\<lambda>p. p \<noteq> k) pend)) =
     filter_mset (\<lambda>x. x \<noteq> Some k) (image_mset Some (mset pend))"
  by (induction pend) auto

lemma busy_update:
  "i < length ls \<Longrightarrow> ls ! i = None \<Longrightarrow>
   busy (ls[i := v]) = busy ls + (if v = None then {#} else {#v#})"
proof (induction ls arbitrary: i)
  case Nil
  then show ?case by simp
next
  case (Cons x xs)
  then show ?case by (cases i) (auto simp: busy_def)
qed

lemma busy_put_lane:
  assumes "i < length ls \<Longrightarrow> ls ! i = None"
  shows "busy (put_lane i v ls) = busy ls + (if v = None then {#} else {#v#})"
proof (cases "i < length ls")
  case True
  with assms show ?thesis by (simp add: put_lane_def busy_update)
next
  case False
  then show ?thesis by (simp add: put_lane_def busy_def)
qed

lemma size_busy_full: "None \<notin> set ls \<Longrightarrow> size (busy ls) = length ls"
proof (induction ls)
  case Nil
  then show ?case by (simp add: busy_def)
next
  case (Cons a ls)
  then obtain y where "a = Some y" by (cases a) auto
  with Cons show ?case by (simp add: busy_def)
qed

lemma length_put_lane:
  "length (put_lane i v ls) = (if i < length ls then length ls else Suc (length ls))"
  by (simp add: put_lane_def)

lemma put_lane_full: "None \<notin> set ls \<Longrightarrow> None \<notin> set (put_lane i (Some q) ls)"
  using set_update_subset_insert [of ls i "Some q"] by (auto simp: put_lane_def)

lemma open_merge_parent_full:
  "None \<notin> set ls \<Longrightarrow> None \<notin> set (open_merge_parent q ls)"
  by (simp add: open_merge_parent_def put_lane_full)

lemma open_merge_parent_mono: "length ls \<le> length (open_merge_parent q ls)"
  by (simp add: open_merge_parent_def length_put_lane)

lemma open_merge_parent_grows_full:
  "length (open_merge_parent q ls) = length ls \<or> None \<notin> set (open_merge_parent q ls)"
proof (cases "Some q \<in> set ls \<or> lowest_unused ls < length ls")
  case True
  then show ?thesis by (auto simp: open_merge_parent_def length_put_lane)
next
  case False
  with lowest_unused_le [of ls] have "lowest_unused ls = length ls" by simp
  then have "None \<notin> set ls" by (rule lowest_unused_full)
  then show ?thesis by (simp add: open_merge_parent_full)
qed

lemma busy_open_merge_parent:
  "busy (open_merge_parent q ls) \<subseteq># busy ls + {#Some q#}"
proof (cases "Some q \<in> set ls")
  case True
  then show ?thesis by (simp add: open_merge_parent_def)
next
  case False
  have "busy (put_lane (lowest_unused ls) (Some q) ls) = busy ls + {#Some q#}"
    by (simp add: busy_put_lane lowest_unused_free)
  with False show ?thesis by (simp add: open_merge_parent_def)
qed

lemma fold_open_full:
  "None \<notin> set ls \<Longrightarrow> None \<notin> set (fold open_merge_parent qs ls)"
  by (induction qs arbitrary: ls) (simp_all add: open_merge_parent_full)

lemma fold_open_mono: "length ls \<le> length (fold open_merge_parent qs ls)"
proof (induction qs arbitrary: ls)
  case Nil
  then show ?case by simp
next
  case (Cons q qs)
  have "length ls \<le> length (open_merge_parent q ls)" by (rule open_merge_parent_mono)
  also have "\<dots> \<le> length (fold open_merge_parent qs (open_merge_parent q ls))" by (rule Cons.IH)
  finally show ?case by simp
qed

lemma fold_open_grows_full:
  "length (fold open_merge_parent qs ls) = length ls \<or>
   None \<notin> set (fold open_merge_parent qs ls)"
proof (induction qs arbitrary: ls)
  case Nil
  then show ?case by simp
next
  case (Cons q qs)
  from Cons.IH [of "open_merge_parent q ls"] open_merge_parent_grows_full [of q ls]
  show ?case by (auto simp: fold_open_full)
qed

lemma busy_fold_open:
  "busy (fold open_merge_parent qs ls) \<subseteq># busy ls + image_mset Some (mset qs)"
proof (induction qs arbitrary: ls)
  case Nil
  then show ?case by simp
next
  case (Cons q qs)
  have "busy (fold open_merge_parent qs (open_merge_parent q ls))
          \<subseteq># busy (open_merge_parent q ls) + image_mset Some (mset qs)"
    by (rule Cons.IH)
  also have "\<dots> \<subseteq># (busy ls + {#Some q#}) + image_mset Some (mset qs)"
    using busy_open_merge_parent [of q ls] by (simp only: subset_mset.add_right_mono)
  finally show ?case by (simp add: ac_simps)
qed

lemma assign_step_None:
  "assign_step c ls = (None, ls') \<Longrightarrow> ls' = ls \<and> commit_id c \<in> set (parents c)"
  by (auto simp: assign_step_def Let_def split: if_splits)

lemma assign_step_Some_iff:
  "commit_id c \<notin> set (parents c) \<Longrightarrow>
   assign_step c ls =
     (Some (place c ls),
      fold open_merge_parent (tl (parents c))
        (continue_lane c (place c ls) (free_expecting (commit_id c) ls)))"
  by (simp add: assign_step_def Let_def)

lemma assign_step_length:
  assumes st: "assign_step c ls = (Some i, ls')"
  shows "i < length ls'" and "length ls \<le> length ls'"
proof -
  let ?l1 = "continue_lane c i (free_expecting (commit_id c) ls)"
  from st have i: "i = place c ls"
    and ls': "ls' = fold open_merge_parent (tl (parents c)) ?l1"
    by (auto simp: assign_step_def Let_def split: if_splits)
  have i_le: "i \<le> length ls" by (simp add: i place_le)
  have len1: "length ?l1 = (if i < length ls then length ls else Suc (length ls))"
    by (simp add: continue_lane_def length_put_lane)
  have mono: "length ?l1 \<le> length ls'" unfolding ls' by (rule fold_open_mono)
  from i_le len1 mono show "i < length ls'" by (auto split: if_splits)
  from len1 mono show "length ls \<le> length ls'" by (auto split: if_splits)
qed

lemma assign_step_Some:
  assumes st: "assign_step c ls = (Some i, ls')"
    and inv: "busy ls \<subseteq># image_mset Some (mset pend)"
  defines "pass \<equiv> filter (\<lambda>p. p \<noteq> commit_id c) pend"
  shows "busy ls' \<subseteq># image_mset Some (mset (pass @ parents c))"
    and "length ls' \<le> max (length ls) (length pass + max 1 (length (parents c)))"
proof -
  let ?k = "commit_id c"
  let ?l0 = "free_expecting ?k ls"
  let ?l1 = "continue_lane c i ?l0"
  from st have i: "i = place c ls"
    and ls': "ls' = fold open_merge_parent (tl (parents c)) ?l1"
    by (auto simp: assign_step_def Let_def split: if_splits)
  have i_le: "i \<le> length ls" by (simp add: i place_le)
  have slot: "i < length ?l0 \<Longrightarrow> ?l0 ! i = None"
    using place_slot [of c ls] by (simp add: i free_expecting_slot)
  have inv0: "busy ?l0 \<subseteq># image_mset Some (mset pass)"
    unfolding pass_def busy_free_expecting image_Some_filter
    using inv by (rule multiset_filter_mono)
  have len1: "length ?l1 = (if i < length ls then length ls else Suc (length ls))"
    by (simp add: continue_lane_def length_put_lane)
  have busy1: "busy ?l1 = busy ?l0 + image_mset Some (mset (take 1 (parents c)))"
  proof -
    have bp: "busy (put_lane i v ?l0) = busy ?l0 + (if v = None then {#} else {#v#})" for v
      by (rule busy_put_lane) (rule slot)
    show ?thesis
      by (cases "parents c") (simp_all add: continue_lane_def bp)
  qed
  have "busy ls' \<subseteq># busy ?l1 + image_mset Some (mset (tl (parents c)))"
    unfolding ls' by (rule busy_fold_open)
  also have "\<dots> = busy ?l0 + image_mset Some (mset (parents c))"
    by (cases "parents c") (simp_all add: busy1)
  also have "\<dots> \<subseteq># image_mset Some (mset pass) + image_mset Some (mset (parents c))"
    using inv0 by (simp only: subset_mset.add_right_mono)
  finally show inv': "busy ls' \<subseteq># image_mset Some (mset (pass @ parents c))"
    by simp
  from inv' have "size (busy ls') \<le> size (image_mset Some (mset (pass @ parents c)))"
    by (rule size_mset_mono)
  then have sz: "size (busy ls') \<le> length pass + length (parents c)" by simp
  have full: "None \<notin> set ls' \<Longrightarrow>
      length ls' \<le> max (length ls) (length pass + max 1 (length (parents c)))"
    using sz by (simp add: size_busy_full)
  show "length ls' \<le> max (length ls) (length pass + max 1 (length (parents c)))"
  proof (cases "i < length ls")
    case True
    then have "length ?l1 = length ls" by (simp add: len1)
    with fold_open_grows_full [of "tl (parents c)" ?l1] full show ?thesis
      by (auto simp: ls')
  next
    case False
    with i_le have il: "i = length ls" by simp
    with i have f: "None \<notin> set ls" and nk: "Some ?k \<notin> set ls"
      by (simp_all add: place_new_full)
    from nk have l0: "?l0 = ls" by (rule free_expecting_id)
    from inv0 have "size (busy ?l0) \<le> size (image_mset Some (mset pass))"
      by (rule size_mset_mono)
    with f l0 have lp: "length ls \<le> length pass" by (simp add: size_busy_full)
    show ?thesis
    proof (cases "parents c")
      case Nil
      with il lp show ?thesis by (simp add: ls' continue_lane_def put_lane_def l0)
    next
      case (Cons p ps)
      then have "?l1 = put_lane i (Some p) ls" by (simp add: continue_lane_def l0)
      with f have "None \<notin> set ?l1" by (simp add: put_lane_full)
      then have "None \<notin> set ls'" unfolding ls' by (rule fold_open_full)
      then show ?thesis by (rule full)
    qed
  qed
qed

lemma final_lanes_mono: "length ls \<le> length (final_lanes ls cs)"
proof (induction cs arbitrary: ls)
  case Nil
  then show ?case by simp
next
  case (Cons c cs)
  obtain r ls' where st: "assign_step c ls = (r, ls')" by (cases "assign_step c ls")
  have "length ls \<le> length ls'"
  proof (cases r)
    case None
    with st show ?thesis by (auto dest: assign_step_None)
  next
    case (Some i)
    with st have "assign_step c ls = (Some i, ls')" by simp
    then show ?thesis by (rule assign_step_length(2))
  qed
  also have "\<dots> \<le> length (final_lanes ls' cs)" by (rule Cons.IH)
  finally show ?case by (simp add: st)
qed

lemma layout_lane_lt:
  "(i, Some l) \<in> set (layout ls cs) \<Longrightarrow> l < length (final_lanes ls cs)"
proof (induction cs arbitrary: ls)
  case Nil
  then show ?case by simp
next
  case (Cons c cs)
  obtain r ls' where st: "assign_step c ls = (r, ls')" by (cases "assign_step c ls")
  from Cons.prems st
  consider "r = Some l" | "(i, Some l) \<in> set (layout ls' cs)" by auto
  then show ?case
  proof cases
    case 1
    with st have "l < length ls'" by (auto dest: assign_step_length(1))
    also have "\<dots> \<le> length (final_lanes ls' cs)" by (rule final_lanes_mono)
    finally show ?thesis by (simp add: st)
  next
    case 2
    then show ?thesis by (simp add: st Cons.IH)
  qed
qed

lemma final_lanes_bound:
  assumes "\<forall>c\<in>set cs. commit_id c \<notin> set (parents c)"
    and "busy ls \<subseteq># image_mset Some (mset pend)"
  shows "length (final_lanes ls cs) \<le> max (length ls) (foldr max (widths_from pend cs) 0)"
  using assms
proof (induction cs arbitrary: ls pend)
  case Nil
  then show ?case by simp
next
  case (Cons c cs)
  let ?pass = "filter (\<lambda>p. p \<noteq> commit_id c) pend"
  let ?w = "length ?pass + max 1 (length (parents c))"
  from Cons.prems(1) have c: "commit_id c \<notin> set (parents c)"
    and cs: "\<forall>c\<in>set cs. commit_id c \<notin> set (parents c)" by simp_all
  obtain ls' where st: "assign_step c ls = (Some (place c ls), ls')"
    using c by (simp add: assign_step_Some_iff)
  from assign_step_Some [OF st Cons.prems(2)]
  have inv': "busy ls' \<subseteq># image_mset Some (mset (?pass @ parents c))"
    and len: "length ls' \<le> max (length ls) ?w" by simp_all
  from Cons.IH [OF cs inv']
  have "length (final_lanes ls' cs)
          \<le> max (length ls') (foldr max (widths_from (?pass @ parents c) cs) 0)" .
  with len st show ?case by (simp add: Let_def)
qed

lemma length_widths_from [simp]: "length (widths_from pend cs) = length cs"
  by (induction cs arbitrary: pend) (simp_all add: Let_def)

lemma answered_Cons_0: "answered (c # cs) 0 (Suc r) = set (map commit_id (take (Suc r) cs))"
  by (simp add: answered_def)

lemma answered_Cons_Suc: "answered (c # cs) (Suc i) (Suc r) = answered cs i r"
  by (simp add: answered_def)

lemma open_edges_0: "open_edges cs 0 = []"
  by (simp add: open_edges_def)

lemma open_edges_Cons_Suc:
  "open_edges (c # cs) (Suc r) =
     filter (\<lambda>p. p \<notin> set (map commit_id (take (Suc r) cs))) (parents c) @ open_edges cs r"
proof -
  have "[0..<Suc r] = 0 # map Suc [0..<r]"
    by (simp add: upt_conv_Cons map_Suc_upt del: upt_Suc)
  then show ?thesis
    by (simp add: open_edges_def answered_Cons_0 answered_Cons_Suc comp_def del: upt_Suc)
qed

lemma widths_from_nth:
  "r < length cs \<Longrightarrow>
   widths_from pend cs ! r =
     length (filter (\<lambda>p. p \<notin> set (map commit_id (take (Suc r) cs))) pend) + open_branches cs r"
proof (induction cs arbitrary: pend r)
  case Nil
  then show ?case by simp
next
  case (Cons c cs)
  show ?case
  proof (cases r)
    case 0
    have "filter (\<lambda>p. p \<noteq> commit_id c) pend = filter (\<lambda>p. p \<notin> {commit_id c}) pend"
      by simp
    with 0 show ?thesis by (simp add: Let_def open_branches_def open_edges_0)
  next
    case (Suc r')
    with Cons.prems have r': "r' < length cs" by simp
    let ?A = "set (map commit_id (take (Suc r') cs))"
    have f: "filter (\<lambda>p. p \<notin> ?A) (filter (\<lambda>p. p \<noteq> commit_id c) pend) =
             filter (\<lambda>p. p \<notin> set (map commit_id (take (Suc (Suc r')) (c # cs)))) pend"
      by (auto intro: filter_cong)
    have "widths_from pend (c # cs) ! r =
            widths_from (filter (\<lambda>p. p \<noteq> commit_id c) pend @ parents c) cs ! r'"
      by (simp add: Suc Let_def)
    also have "\<dots> = length (filter (\<lambda>p. p \<notin> ?A) (filter (\<lambda>p. p \<noteq> commit_id c) pend @ parents c))
                      + open_branches cs r'"
      by (rule Cons.IH [OF r'])
    also have "\<dots> = length (filter (\<lambda>p. p \<notin> set (map commit_id (take (Suc r) (c # cs)))) pend)
                      + open_branches (c # cs) r"
      unfolding Suc f [symmetric]
      by (simp add: open_branches_def open_edges_Cons_Suc)
    finally show ?thesis .
  qed
qed

lemma widths_from_open_branches:
  "widths_from [] cs = map (open_branches cs) [0..<length cs]"
  by (rule nth_equalityI) (simp_all add: widths_from_nth)

lemma in_assignLanes:
  "(i, l) \<in> set (assignLanes cs) \<longleftrightarrow> (i, Some l) \<in> set (layout [] cs)"
  by (force simp: assignLanes_def List.map_filter_def image_iff)

lemma lanes_used_bound:
  assumes "\<forall>c\<in>set cs. commit_id c \<notin> set (parents c)"
  shows "card (snd ` set (assignLanes cs)) \<le> max_open_branches cs"
proof -
  have "snd ` set (assignLanes cs) \<subseteq> {..<length (final_lanes [] cs)}"
    by (auto simp: in_assignLanes dest: layout_lane_lt)
  then have "card (snd ` set (assignLanes cs)) \<le> card {..<length (final_lanes [] cs)}"
    by (intro card_mono) simp_all
  also have "\<dots> \<le> max_open_branches cs"
    using final_lanes_bound [OF assms, of "[]" "[]"]
    by (simp add: max_open_branches_def widths_from_open_branches busy_def)
  finally show ?thesis .
qed

lemma layout_assigns:
  "c \<in> set cs \<Longrightarrow> \<forall>c\<in>set cs. commit_id c \<notin> set (parents c) \<Longrightarrow>
   \<exists>l. (commit_id c, Some l) \<in> set (layout ls cs)"
proof (induction cs arbitrary: ls)
  case Nil
  then show ?case by simp
next
  case (Cons d cs)
  from Cons.prems(2) have d: "commit_id d \<notin> set (parents d)" by simp
  show ?case
  proof (cases "c = d")
    case True
    with d show ?thesis by (auto simp: assign_step_Some_iff)
  next
    case False
    with Cons.prems have "c \<in> set cs" and "\<forall>c\<in>set cs. commit_id c \<notin> set (parents c)"
      by simp_all
    from Cons.IH [OF this] d show ?thesis by (auto simp: assign_step_Some_iff)
  qed
qed

lemma acyclic_no_self_parent:
  assumes "acyclic (parent_edges cs)" and "c \<in> set cs"
  shows "commit_id c \<notin> set (parents c)"
proof
  assume "commit_id c \<in> set (parents c)"
  with assms(2) have "(commit_id c, commit_id c) \<in> parent_edges cs"
    by (auto simp: parent_edges_def)
  then have "(commit_id c, commit_id c) \<in> (parent_edges cs)\<^sup>+" by (rule r_into_trancl)
  with assms(1) show False by (simp add: acyclic_def)
qed

lemma place_expected:
  "lane_expecting (commit_id c) ls = Some i \<Longrightarrow>
   place c ls = i \<and> i < length ls \<and> ls ! i = Some (commit_id c)"
  by (auto simp: place_def dest: lane_expecting_Some)

lemma place_lowest_free:
  assumes "lane_expecting (commit_id c) ls = None"
  shows "place c ls \<le> length ls"
    and "\<forall>j<place c ls. ls ! j \<noteq> None"
    and "place c ls < length ls \<longrightarrow> ls ! place c ls = None"
  using assms
  by (simp_all add: place_def lowest_unused_le lowest_unused_lowest lowest_unused_free)

text \<open>
  C7. For a commit sequence with acyclic parent references, \<^verbatim>\<open>assignLanes\<close> (a total
  function: it recurses on the sequence) gives every commit a lane, a natural number;
  the number of distinct lanes it uses is at most the largest number of branches open at
  a row of the graph, counted on the commit sequence alone; and a commit that no lane
  expects gets the lowest free lane, a new lane number only when every lane is occupied.
\<close>

theorem assignLanes_total_and_bounded:
  assumes "acyclic (parent_edges cs)"
  shows "(\<forall>c\<in>set cs. \<exists>l. map_of (assignLanes cs) (commit_id c) = Some l \<and> 0 \<le> int l) \<and>
         card (snd ` set (assignLanes cs)) \<le> max_open_branches cs \<and>
         (\<forall>c ls. lane_expecting (commit_id c) ls = None \<longrightarrow>
            place c ls \<le> length ls \<and> (\<forall>j<place c ls. ls ! j \<noteq> None) \<and>
            (place c ls < length ls \<longrightarrow> ls ! place c ls = None))"
proof -
  have ns: "\<forall>c\<in>set cs. commit_id c \<notin> set (parents c)"
    using assms by (auto dest: acyclic_no_self_parent)
  have a: "\<exists>l. map_of (assignLanes cs) (commit_id c) = Some l \<and> 0 \<le> int l"
    if c: "c \<in> set cs" for c
  proof -
    from layout_assigns [OF c ns] obtain l where "(commit_id c, l) \<in> set (assignLanes cs)"
      by (auto simp: in_assignLanes)
    then have "\<exists>l. map_of (assignLanes cs) (commit_id c) = Some l"
      by (rule weak_map_of_SomeI)
    then show ?thesis by auto
  qed
  from ns have b: "card (snd ` set (assignLanes cs)) \<le> max_open_branches cs"
    by (rule lanes_used_bound)
  have p: "place c ls \<le> length ls \<and> (\<forall>j<place c ls. ls ! j \<noteq> None) \<and>
            (place c ls < length ls \<longrightarrow> ls ! place c ls = None)"
    if "lane_expecting (commit_id c) ls = None" for c :: commit and ls :: lanes
    using place_lowest_free [OF that] by blast
  from a b p show ?thesis by blast
qed


lemma sample_edges:
  "parent_edges sample_history =
     {(''abc123'', ''def456''), (''abc123'', ''ghi789''), (''def456'', ''jkl012''),
      (''ghi789'', ''mno345''), (''jkl012'', ''mno345'')}"
  by (simp add: parent_edges_def sample_defs)

lemma sample_acyclic: "acyclic (parent_edges sample_history)"
proof -
  define rank :: "string \<Rightarrow> nat" where
    "rank = (\<lambda>i. if i = ''abc123'' then 4 else if i = ''def456'' then 3
                 else if i = ''ghi789'' then 3 else if i = ''jkl012'' then 2 else 1)"
  have "\<And>a b. (a, b) \<in> parent_edges sample_history \<Longrightarrow> rank b < rank a"
    unfolding sample_edges by (auto simp: rank_def)
  then show ?thesis
    by (rule acyclicI_order)
qed

lemma sample_lanes: "assignLanes sample_history =
     [(''abc123'', 0), (''def456'', 0), (''ghi789'', 1), (''jkl012'', 0), (''mno345'', 0)]"
  by code_simp

lemma sample_width: "max_open_branches sample_history = 2"
  by code_simp

lemma fork_chain_lanes: "assignLanes fork_chain =
     [(''a'', 0), (''b'', 1), (''p'', 0), (''c'', 1), (''q'', 0), (''d'', 1), (''r'', 0)]"
  by code_simp

lemma fork_chain_width:
  "map (open_branches fork_chain) [0..<length fork_chain] = [1, 2, 1, 2, 1, 2, 1]"
  by code_simp

theorem assignLanes_total_and_bounded_witness:
  "acyclic (parent_edges sample_history) \<and>
   assignLanes sample_history =
     [(''abc123'', 0), (''def456'', 0), (''ghi789'', 1), (''jkl012'', 0), (''mno345'', 0)] \<and>
   map_of (assignLanes sample_history) (commit_id c_ghi) = Some 1 \<and>
   max_open_branches sample_history = 2 \<and>
   card (snd ` set (assignLanes sample_history)) \<le> max_open_branches sample_history \<and>
   lane_expecting (commit_id c_mno) [Some ''x'', None] = None \<and>
   place c_mno [Some ''x'', None] = 1"
proof -
  note t = assignLanes_total_and_bounded [OF sample_acyclic]
  from t have c: "card (snd ` set (assignLanes sample_history)) \<le> max_open_branches sample_history"
    by (elim conjE)
  have m: "map_of (assignLanes sample_history) (commit_id c_ghi) = Some 1"
    by code_simp
  have e: "lane_expecting (commit_id c_mno) [Some ''x'', None] = None"
    by code_simp
  have p: "place c_mno [Some ''x'', None] = 1"
    by code_simp
  from sample_acyclic sample_lanes m sample_width c e p show ?thesis
    by (intro conjI)
qed


end
